theory Spec2Isabelle
  imports Main "HOL-Library.Word"
begin

section \<open>Values, objects and the heap\<close>

text \<open>
  The sanitizer \<^verbatim>\<open>ComprehensiveReportGenerator._clean_circular_references\<close> of
  \<^verbatim>\<open>src/services/comprehensive_report_generator.py\<close> walks arbitrary Python data.
  Cycle detection is by object identity (\<^verbatim>\<open>id(obj)\<close>), so mappings, sequences and
  all other objects live in a heap and are referred to by address; the scalars of the first
  branch (\<^verbatim>\<open>None\<close>, \<^verbatim>\<open>str\<close>, \<^verbatim>\<open>int\<close>, \<^verbatim>\<open>float\<close>,
  \<^verbatim>\<open>bool\<close>) are immediate values. A float is its 64-bit IEEE pattern: the
  sanitizer never computes with it. A string is a list of characters, and its length is the
  number of them.
\<close>

type_synonym addr = nat

datatype pyval =
    PNone
  | PBool bool
  | PInt int
  | PFloat "64 word"
  | PStr string
  | PRef addr

text \<open>
  A \<^verbatim>\<open>dict\<close> is its list of items in iteration order (keys are values: Python
  allows any hashable key), a \<^verbatim>\<open>list\<close> is its items, and every other object is
  described by the three things the sanitizer asks of it: whether it is callable, whether it has
  a \<^verbatim>\<open>__dict__\<close> attribute, and the name of its type. Dicts and lists are the built-in
  ones, which are not callable.
\<close>

datatype pyobj =
    DictObj "(pyval \<times> pyval) list"
  | ListObj "pyval list"
  | OtherObj (is_callable: bool) (has_attr_dict: bool) (class_name: string)

type_synonym heap = "addr \<Rightarrow> pyobj"

text \<open>
  Exceptions. \<^verbatim>\<open>RecursionError\<close> is what the interpreter raises when a call would exceed
  the recursion limit; \<^verbatim>\<open>StrError\<close> stands for an ordinary exception raised by an
  object's string conversion; \<^verbatim>\<open>BaseError\<close> for one outside the \<^verbatim>\<open>Exception\<close>
  hierarchy (such as \<^verbatim>\<open>KeyboardInterrupt\<close>), which \<^verbatim>\<open>except Exception\<close> lets
  through and a bare \<^verbatim>\<open>except:\<close> catches.
\<close>

datatype exn = RecursionError | StrError | BaseError

fun is_Exception :: "exn \<Rightarrow> bool" where
  "is_Exception RecursionError = True"
| "is_Exception StrError = True"
| "is_Exception BaseError = False"

text \<open>
  The built-in \<^verbatim>\<open>str()\<close> is not code of this repository: it is a parameter of the model,
  a function from a value to the string it renders or the exception it raises.
\<close>

type_synonym py_str = "pyval \<Rightarrow> exn + string"

text \<open>
  The result is always a freshly built tree of new dicts, new lists and scalars, so it is a
  datatype of its own. Keys of a result dict are the key objects of the input dict.
\<close>

datatype outval =
    ONone
  | OBool bool
  | OInt int
  | OFloat "64 word"
  | OStr string
  | ODict "(pyval \<times> outval) list"
  | OList "outval list"

section \<open>The sanitizer\<close>

text \<open>\<^verbatim>\<open>type(value).__name__\<close>\<close>

fun type_name :: "heap \<Rightarrow> pyval \<Rightarrow> string" where
  "type_name H PNone = ''NoneType''"
| "type_name H (PBool b) = ''bool''"
| "type_name H (PInt i) = ''int''"
| "type_name H (PFloat f) = ''float''"
| "type_name H (PStr s) = ''str''"
| "type_name H (PRef a) =
     (case H a of
        DictObj items \<Rightarrow> ''dict''
      | ListObj items \<Rightarrow> ''list''
      | OtherObj c d nm \<Rightarrow> nm)"

definition unsafe_keys :: "string list" where
  "unsafe_keys =
     [''_sa_instance_state'', ''__dict__'', ''__weakref__'', ''logger'', ''client'', ''session'']"

text \<open>
  \<^verbatim>\<open>key in ['_sa_instance_state', ...]\<close>: list membership compares with \<^verbatim>\<open>==\<close>, and
  only a string equals a string.
\<close>

fun key_unsafe :: "pyval \<Rightarrow> bool" where
  "key_unsafe (PStr s) = (s \<in> set unsafe_keys)"
| "key_unsafe k = False"

text \<open>
  \<^verbatim>\<open>cleaned[key] = v\<close> on a dict kept as its list of items: a key that is present keeps
  its place and gets the new value, a new key goes to the end. The keys that reach it are the
  keys of one Python dict, which are pairwise different, so each of them is new.
\<close>

fun assign :: "(pyval \<times> outval) list \<Rightarrow> pyval \<Rightarrow> outval \<Rightarrow> (pyval \<times> outval) list" where
  "assign [] key v = [(key, v)]"
| "assign ((k, w) # kvs) key v =
     (if k = key then (k, v) # kvs else (k, w) # assign kvs key v)"

text \<open>
  The handler of the dict loop:
  \<^verbatim>\<open>try: cleaned[key] = str(value)[:200] if value is not None else None\<close>
  \<^verbatim>\<open>except: cleaned[key] = f"<{type(value).__name__}>"\<close>
\<close>

definition dict_fallback :: "py_str \<Rightarrow> heap \<Rightarrow> pyval \<Rightarrow> outval" where
  "dict_fallback S H v =
     (if v \<noteq> PNone then
        (case S v of
           Inr s \<Rightarrow> OStr (take 200 s)
         | Inl e \<Rightarrow> OStr (''<'' @ type_name H v @ ''>''))
      else ONone)"

text \<open>
  The loop \<^verbatim>\<open>for key, value in obj.items()\<close>. \<open>rec\<close> is the recursive call
  \<^verbatim>\<open>self._clean_circular_references(value, seen.copy())\<close>. A child's exception of class
  \<^verbatim>\<open>Exception\<close> is handled for that key; any other exception leaves the loop and the
  function.
\<close>

fun clean_items ::
  "py_str \<Rightarrow> heap \<Rightarrow> (pyval \<Rightarrow> exn + outval) \<Rightarrow> (pyval \<times> pyval) list \<Rightarrow>
   (pyval \<times> outval) list \<Rightarrow> exn + (pyval \<times> outval) list" where
  "clean_items S H rec [] cleaned = Inr cleaned"
| "clean_items S H rec ((key, v) # rest) cleaned =
     (if key_unsafe key then clean_items S H rec rest cleaned
      else
        (case rec v of
           Inr r \<Rightarrow> clean_items S H rec rest (assign cleaned key r)
         | Inl e \<Rightarrow>
             if is_Exception e
             then clean_items S H rec rest (assign cleaned key (dict_fallback S H v))
             else Inl e))"

text \<open>A list comprehension whose element expression may raise: the first exception ends it.\<close>

fun collect :: "(exn + 'a) list \<Rightarrow> exn + 'a list" where
  "collect [] = Inr []"
| "collect (Inl e # rs) = Inl e"
| "collect (Inr x # rs) = (case collect rs of Inl e \<Rightarrow> Inl e | Inr xs \<Rightarrow> Inr (x # xs))"

text \<open>
  The handler of the list branch, which has no handler of its own:
  \<^verbatim>\<open>[str(item)[:100] if item is not None else None for item in obj[:50]]\<close>
\<close>

definition render_item :: "py_str \<Rightarrow> pyval \<Rightarrow> exn + outval" where
  "render_item S item =
     (if item \<noteq> PNone then
        (case S item of Inr s \<Rightarrow> Inr (OStr (take 100 s)) | Inl e \<Rightarrow> Inl e)
      else Inr ONone)"

definition list_fallback :: "py_str \<Rightarrow> pyval list \<Rightarrow> exn + outval" where
  "list_fallback S items =
     (case collect (map (render_item S) (take 50 items)) of
        Inr rs \<Rightarrow> Inr (OList rs)
      | Inl e \<Rightarrow> Inl e)"

text \<open>
  The body of the list branch:
  \<^verbatim>\<open>limited_list = obj[:100] if len(obj) > 100 else obj\<close>, the comprehension over it, and
  the bare \<^verbatim>\<open>except:\<close> around both.
\<close>

definition clean_list :: "py_str \<Rightarrow> (pyval \<Rightarrow> exn + outval) \<Rightarrow> pyval list \<Rightarrow> exn + outval" where
  "clean_list S rec items =
     (let limited_list = (if length items > 100 then take 100 items else items) in
      case collect (map rec limited_list) of
        Inr rs \<Rightarrow> Inr (OList rs)
      | Inl e \<Rightarrow> list_fallback S items)"

text \<open>
  The final \<^verbatim>\<open>else\<close> branch:
  \<^verbatim>\<open>str_repr = str(obj); return str_repr[:200] if len(str_repr) > 200 else str_repr\<close>, with
  \<^verbatim>\<open>f"<{type(obj).__name__}>"\<close> when \<^verbatim>\<open>str\<close> raises.
\<close>

definition render_other :: "py_str \<Rightarrow> heap \<Rightarrow> pyval \<Rightarrow> outval" where
  "render_other S H obj =
     (case S obj of
        Inr str_repr \<Rightarrow> OStr (if length str_repr > 200 then take 200 str_repr else str_repr)
      | Inl e \<Rightarrow> OStr (''<'' @ type_name H obj @ ''>''))"

definition circular_marker :: "heap \<Rightarrow> pyval \<Rightarrow> outval" where
  "circular_marker H obj =
     ODict [(PStr ''_circular_ref'', OStr (''Reference to '' @ type_name H obj))]"

text \<open>
  \<^verbatim>\<open>_clean_circular_references(obj, seen)\<close>. The first numeric argument is the number of
  nested calls the interpreter still allows: a call made when none is left raises
  \<^verbatim>\<open>RecursionError\<close>, which the handlers of the callers catch like any other exception.
  This is what makes the function terminate on a list that contains itself, since only dicts
  are entered in \<open>seen\<close>.

  \<open>seen\<close> is the caller's mutable set. The function returns, next to its result or exception,
  the contents of that set when it is left: the dict branch adds \<^verbatim>\<open>id(obj)\<close> and removes
  it before returning, and an exception that leaves the dict loop skips the removal. Every
  child gets \<^verbatim>\<open>seen.copy()\<close>, so what a child does to its set is dropped.
\<close>

fun clean :: "py_str \<Rightarrow> heap \<Rightarrow> nat \<Rightarrow> pyval \<Rightarrow> addr set \<Rightarrow> (exn + outval) \<times> addr set" where
  "clean S H 0 obj seen = (Inl RecursionError, seen)"
| "clean S H (Suc n) PNone seen = (Inr ONone, seen)"
| "clean S H (Suc n) (PStr s) seen = (Inr (OStr s), seen)"
| "clean S H (Suc n) (PInt i) seen = (Inr (OInt i), seen)"
| "clean S H (Suc n) (PFloat f) seen = (Inr (OFloat f), seen)"
| "clean S H (Suc n) (PBool b) seen = (Inr (OBool b), seen)"
| "clean S H (Suc n) (PRef a) seen =
     (case H a of
        OtherObj c d nm \<Rightarrow>
          if c \<or> d then (Inr (OStr nm), seen)
          else (Inr (render_other S H (PRef a)), seen)
      | DictObj items \<Rightarrow>
          if a \<in> seen then (Inr (circular_marker H (PRef a)), seen)
          else
            (let seen1 = insert a seen in
             case clean_items S H (\<lambda>v. fst (clean S H n v seen1)) items [] of
               Inr cleaned \<Rightarrow> (Inr (ODict cleaned), seen1 - {a})
             | Inl e \<Rightarrow> (Inl e, seen1))
      | ListObj items \<Rightarrow>
          (clean_list S (\<lambda>item. fst (clean S H n item seen)) items, seen))"

text \<open>The entry point: \<^verbatim>\<open>seen=None\<close> becomes a new empty set.\<close>

definition sanitize :: "py_str \<Rightarrow> heap \<Rightarrow> nat \<Rightarrow> pyval \<Rightarrow> exn + outval" where
  "sanitize S H n obj = fst (clean S H n obj {})"

section \<open>Properties of results\<close>

text \<open>\<open>out_all P r\<close>: \<open>P\<close> holds of \<open>r\<close> and of every value nested in it.\<close>

fun out_all :: "(outval \<Rightarrow> bool) \<Rightarrow> outval \<Rightarrow> bool" where
  "out_all P (OList xs) = (P (OList xs) \<and> (\<forall>x \<in> set xs. out_all P x))"
| "out_all P (ODict kvs) = (P (ODict kvs) \<and> (\<forall>kv \<in> set kvs. out_all P (snd kv)))"
| "out_all P v = P v"

text \<open>Every list of the result has at most 100 items.\<close>

definition seqs_bounded :: "outval \<Rightarrow> bool" where
  "seqs_bounded = out_all (\<lambda>r. case r of OList xs \<Rightarrow> length xs \<le> 100 | _ \<Rightarrow> True)"

text \<open>No dict of the result has a key of the unsafe list.\<close>

definition no_unsafe_keys :: "outval \<Rightarrow> bool" where
  "no_unsafe_keys =
     out_all (\<lambda>r. case r of ODict kvs \<Rightarrow> list_all (\<lambda>k. \<not> key_unsafe k) (map fst kvs) | _ \<Rightarrow> True)"




text \<open>
  The values held by the dicts and lists of the heap, the keys of its dicts, and the strings
  made from a type name: the name itself and the placeholder \<^verbatim>\<open><name>\<close>.
\<close>

definition heap_values :: "heap \<Rightarrow> pyval set" where
  "heap_values H =
     {v. (\<exists>a items. H a = DictObj items \<and> v \<in> snd ` set items) \<or>
         (\<exists>a items. H a = ListObj items \<and> v \<in> set items)}"

definition heap_keys :: "heap \<Rightarrow> pyval set" where
  "heap_keys H = {k. \<exists>a items. H a = DictObj items \<and> k \<in> fst ` set items}"

definition type_strings :: "heap \<Rightarrow> string set" where
  "type_strings H = {s. \<exists>v. s = type_name H v \<or> s = ''<'' @ type_name H v @ ''>''}"

text \<open>
  The nesting depth of a result: the number of nested calls of the sanitizer it takes to walk
  it.
\<close>

fun depth :: "outval \<Rightarrow> nat" where
  "depth (OList xs) = Suc (foldr max (map depth xs) 0)"
| "depth (ODict kvs) = Suc (foldr max (map (\<lambda>kv. depth (snd kv)) kvs) 0)"
| "depth v = Suc 0"

text \<open>
  \<open>repr H v r\<close>: in the heap \<open>H\<close>, the value \<open>v\<close> is an in-memory copy of the result \<open>r\<close>:
  the same scalars, a list object for a list, a dict object with the same keys in the
  same order for a dict. This is what the sanitizer is given when it is applied to its own
  output.
\<close>

fun repr :: "heap \<Rightarrow> pyval \<Rightarrow> outval \<Rightarrow> bool" where
  "repr H v ONone = (v = PNone)"
| "repr H v (OBool b) = (v = PBool b)"
| "repr H v (OInt i) = (v = PInt i)"
| "repr H v (OFloat f) = (v = PFloat f)"
| "repr H v (OStr s) = (v = PStr s)"
| "repr H v (OList rs) =
     (case v of
        PRef a \<Rightarrow>
          (case H a of
             ListObj items \<Rightarrow> list_all2 (repr H) items rs
           | _ \<Rightarrow> False)
      | _ \<Rightarrow> False)"
| "repr H v (ODict krs) =
     (case v of
        PRef a \<Rightarrow>
          (case H a of
             DictObj items \<Rightarrow>
               map fst items = map fst krs \<and> list_all2 (repr H) (map snd items) (map snd krs)
           | _ \<Rightarrow> False)
      | _ \<Rightarrow> False)"

text \<open>
  \<open>reach H v a\<close>: the object at address \<open>a\<close> is \<open>v\<close> itself or is contained in it, through
  dict values and list items.
\<close>

inductive reach :: "heap \<Rightarrow> pyval \<Rightarrow> addr \<Rightarrow> bool" for H :: heap where
  reach_self: "reach H (PRef a) a"
| reach_dict: "H a = DictObj items \<Longrightarrow> (k, v) \<in> set items \<Longrightarrow> reach H v b \<Longrightarrow> reach H (PRef a) b"
| reach_list: "H a = ListObj items \<Longrightarrow> v \<in> set items \<Longrightarrow> reach H v b \<Longrightarrow> reach H (PRef a) b"

code_pred reach .

text \<open>
  What the dict loop stores under a key whose value is \<open>v\<close>: the result of the recursive
  call, or the handler's value when the call raises an \<^verbatim>\<open>Exception\<close>.
\<close>

definition child_result :: "py_str \<Rightarrow> heap \<Rightarrow> (pyval \<Rightarrow> exn + outval) \<Rightarrow> pyval \<Rightarrow> outval" where
  "child_result S H rec v = (case rec v of Inr r \<Rightarrow> r | Inl e \<Rightarrow> dict_fallback S H v)"

text \<open>
  The shape every result has: no list of more than 100 items, and in every dict distinct keys
  none of which is unsafe.
\<close>

definition shaped :: "outval \<Rightarrow> bool" where
  "shaped =
     out_all (\<lambda>r. case r of
        OList xs \<Rightarrow> length xs \<le> 100
      | ODict kvs \<Rightarrow> distinct (map fst kvs) \<and> list_all (\<lambda>k. \<not> key_unsafe k) (map fst kvs)
      | _ \<Rightarrow> True)"

section \<open>Example inputs\<close>

text \<open>
  \<^verbatim>\<open>str()\<close> on the scalars it cannot fail on and whose rendering is plain; the examples
  that use it never render anything else.
\<close>

definition scalar_str :: py_str where
  "scalar_str v =
     (case v of
        PNone \<Rightarrow> Inr ''None''
      | PBool b \<Rightarrow> Inr (if b then ''True'' else ''False'')
      | PStr s \<Rightarrow> Inr s
      | _ \<Rightarrow> Inl StrError)"

text \<open>\<^verbatim>\<open>a = {}; a["self"] = a\<close>, with \<open>a\<close> at address 0.\<close>

definition self_heap :: heap where
  "self_heap a =
     (if a = 0 then DictObj [(PStr ''self'', PRef 0)] else OtherObj False False ''tuple'')"

text \<open>
  \<^verbatim>\<open>shared = {"x": 1}; root = {"a": shared, "b": shared}\<close>, with \<open>root\<close> at address 0
  and \<open>shared\<close> at address 1.
\<close>

definition shared_heap :: heap where
  "shared_heap a =
     (if a = 0 then DictObj [(PStr ''a'', PRef 1), (PStr ''b'', PRef 1)]
      else if a = 1 then DictObj [(PStr ''x'', PInt 1)]
      else OtherObj False False ''tuple'')"

text \<open>
  \<^verbatim>\<open>{"client": Client(), "name": "ok"}\<close> at address 0, where \<^verbatim>\<open>Client\<close> is an ordinary
  class (its instances have a \<^verbatim>\<open>__dict__\<close>).
\<close>

definition client_heap :: heap where
  "client_heap a =
     (if a = 0 then DictObj [(PStr ''client'', PRef 1), (PStr ''name'', PStr ''ok'')]
      else OtherObj False True ''Client'')"

text \<open>\<^verbatim>\<open>list(range(150))\<close> at address 0.\<close>

definition range_heap :: heap where
  "range_heap a =
     (if a = 0 then ListObj (map (\<lambda>i. PInt (int i)) [0..<150])
      else OtherObj False False ''tuple'')"

text \<open>\<^verbatim>\<open>["a"] * 60\<close> at address 0.\<close>

definition sixty_heap :: heap where
  "sixty_heap a =
     (if a = 0 then ListObj (replicate 60 (PStr ''a'')) else OtherObj False False ''tuple'')"




text \<open>
  \<^verbatim>\<open>class Bad:\<close>
  \<^verbatim>\<open>    def __str__(self): raise ValueError()\<close>
  \<^verbatim>\<open>l = []; l.append(l); l.append(Bad()); root = [7, l]; d = {"bad": l, "n": 7}\<close>
  with \<open>root\<close> at address 0, \<open>l\<close> at address 1, the \<^verbatim>\<open>Bad\<close> object at address 2 and
  \<open>d\<close> at address 3. \<^verbatim>\<open>str(l)\<close> shows the list inside itself as \<^verbatim>\<open>[...]\<close> and the
  object by its \<^verbatim>\<open>repr\<close>, which \<^verbatim>\<open>Bad\<close> does not override.
\<close>

definition cyclic_heap :: heap where
  "cyclic_heap a =
     (if a = 0 then ListObj [PInt 7, PRef 1]
      else if a = 1 then ListObj [PRef 1, PRef 2]
      else if a = 3 then DictObj [(PStr ''bad'', PRef 1), (PStr ''n'', PInt 7)]
      else OtherObj False True ''Bad'')"

definition cyclic_str :: py_str where
  "cyclic_str v =
     (if v = PInt 7 then Inr ''7''
      else if v = PRef 1 then Inr ''[[...], <Bad object>]''
      else Inl StrError)"

text \<open>
  The result for \<open>shared_heap\<close> copied into memory as a tree: the outer dict at address 0
  and one inner dict for each key, at addresses 1 and 2.
\<close>

definition tree_heap :: heap where
  "tree_heap a =
     (if a = 0 then DictObj [(PStr ''a'', PRef 1), (PStr ''b'', PRef 2)]
      else if a = 1 then DictObj [(PStr ''x'', PInt 1)]
      else if a = 2 then DictObj [(PStr ''x'', PInt 1)]
      else OtherObj False False ''tuple'')"

section \<open>The loops\<close>

lemma collect_Inr: "collect rs = Inr xs \<Longrightarrow> rs = map Inr xs"
proof (induction rs arbitrary: xs)
  case Nil then show ?case by simp
next
  case (Cons r rs)
  then show ?case by (cases r) (auto split: sum.splits)
qed

lemma collect_map_Inr: "(\<forall>x \<in> set xs. f x = Inr (g x)) \<Longrightarrow> collect (map f xs) = Inr (map g xs)"
  by (induction xs) auto

lemma collect_isl: "isl (collect rs) \<longleftrightarrow> (\<exists>r \<in> set rs. isl r)"
proof (induction rs)
  case Nil then show ?case by simp
next
  case (Cons r rs)
  then show ?case by (cases r) (auto split: sum.splits)
qed

lemma collect_Inr_set:
  "collect (map f xs) = Inr rs \<Longrightarrow> length rs = length xs \<and> (\<forall>r \<in> set rs. \<exists>x \<in> set xs. f x = Inr r)"
proof -
  assume "collect (map f xs) = Inr rs"
  then have eq: "map f xs = map Inr rs" by (rule collect_Inr)
  then have len: "length rs = length xs" by (metis length_map)
  have "\<exists>x \<in> set xs. f x = Inr r" if "r \<in> set rs" for r
  proof -
    from that have "Inr r \<in> set (map f xs)" by (simp add: eq)
    then show ?thesis by auto
  qed
  with len show ?thesis by blast
qed

lemma collect_list_all2:
  "list_all2 (\<lambda>x r. f x = Inr r) xs rs \<Longrightarrow> collect (map f xs) = Inr rs"
  by (induction xs rs rule: list_all2_induct) auto

lemma set_assign: "set (assign kvs k v) \<subseteq> insert (k, v) (set kvs)"
  by (induction kvs k v rule: assign.induct) auto

lemma assign_fresh: "k \<notin> fst ` set kvs \<Longrightarrow> assign kvs k v = kvs @ [(k, v)]"
  by (induction kvs k v rule: assign.induct) auto

lemma keys_assign: "fst ` set (assign kvs k v) = insert k (fst ` set kvs)"
  by (induction kvs k v rule: assign.induct) auto

lemma distinct_assign: "distinct (map fst kvs) \<Longrightarrow> distinct (map fst (assign kvs k v))"
  by (induction kvs k v rule: assign.induct) (auto simp: keys_assign)

lemma clean_items_keys:
  "clean_items S H rec items cleaned = Inr out \<Longrightarrow>
   fst ` set out \<subseteq> fst ` set cleaned \<union> {k \<in> fst ` set items. \<not> key_unsafe k}"
proof (induction items arbitrary: cleaned)
  case Nil then show ?case by auto
next
  case (Cons kv items)
  obtain k v where kv: "kv = (k, v)" by (cases kv)
  let ?K = "{k \<in> fst ` set items. \<not> key_unsafe k}"
  show ?case
  proof (cases "key_unsafe k")
    case True
    with Cons.prems have "clean_items S H rec items cleaned = Inr out" by (simp add: kv)
    from Cons.IH[OF this] show ?thesis by (auto simp: kv)
  next
    case False
    from Cons.prems False obtain r where
      "clean_items S H rec items (assign cleaned k r) = Inr out"
      by (auto simp: kv split: sum.splits if_splits)
    from Cons.IH[OF this] have "fst ` set out \<subseteq> insert k (fst ` set cleaned) \<union> ?K"
      by (simp add: keys_assign)
    with False show ?thesis by (auto simp: kv)
  qed
qed

lemma clean_items_distinct:
  "clean_items S H rec items cleaned = Inr out \<Longrightarrow> distinct (map fst cleaned) \<Longrightarrow>
   distinct (map fst out)"
proof (induction items arbitrary: cleaned)
  case Nil then show ?case by auto
next
  case (Cons kv items)
  obtain k v where kv: "kv = (k, v)" by (cases kv)
  from Cons.prems Cons.IH show ?case unfolding kv
    by (auto split: if_splits sum.splits simp: distinct_assign)
qed

lemma clean_items_values:
  "clean_items S H rec items cleaned = Inr out \<Longrightarrow>
   \<forall>kr \<in> set cleaned. Q (snd kr) \<Longrightarrow>
   \<forall>kv \<in> set items. Q (child_result S H rec (snd kv)) \<Longrightarrow>
   \<forall>kr \<in> set out. Q (snd kr)"
proof (induction items arbitrary: cleaned)
  case Nil then show ?case by auto
next
  case (Cons kv items)
  obtain k v where kv: "kv = (k, v)" by (cases kv)
  have step: "\<And>r. Q r \<Longrightarrow> \<forall>kr \<in> set (assign cleaned k r). Q (snd kr)"
    using Cons.prems(2) set_assign[of cleaned k] by fastforce
  show ?case
  proof (cases "key_unsafe k")
    case True
    with Cons show ?thesis unfolding kv by simp
  next
    case False
    show ?thesis
    proof (cases "rec v")
      case (Inr r)
      with Cons.prems(3) have "Q r" by (simp add: kv child_result_def)
      with Cons.prems Cons.IH[of "assign cleaned k r"] step False Inr show ?thesis
        unfolding kv by simp
    next
      case (Inl e)
      with Cons.prems(3) have "Q (dict_fallback S H v)" by (simp add: kv child_result_def)
      with Cons.prems Cons.IH[of "assign cleaned k (dict_fallback S H v)"] step False Inl show ?thesis
        unfolding kv by (simp split: if_splits)
    qed
  qed
qed

lemma clean_items_Inr_eq:
  "clean_items S H rec items cleaned = Inr out \<Longrightarrow> distinct (map fst items) \<Longrightarrow>
   fst ` set cleaned \<inter> fst ` set items = {} \<Longrightarrow>
   out = cleaned @ map (\<lambda>kv. (fst kv, child_result S H rec (snd kv)))
                       (filter (\<lambda>kv. \<not> key_unsafe (fst kv)) items)"
proof (induction items arbitrary: cleaned)
  case Nil then show ?case by auto
next
  case (Cons kv items)
  obtain k v where kv: "kv = (k, v)" by (cases kv)
  have fresh: "k \<notin> fst ` set cleaned" using Cons.prems(3) by (auto simp: kv)
  have disj: "\<And>r. fst ` set (cleaned @ [(k, r)]) \<inter> fst ` set items = {}"
    using Cons.prems(2,3) by (auto simp: kv)
  have disj0: "fst ` set cleaned \<inter> fst ` set items = {}"
    using Cons.prems(3) by auto
  show ?case
  proof (cases "key_unsafe k")
    case True
    with Cons.prems Cons.IH[OF _ _ disj0] show ?thesis unfolding kv by simp
  next
    case False
    show ?thesis
    proof (cases "rec v")
      case (Inr r)
      with Cons.prems Cons.IH[OF _ _ disj[of r]] False fresh show ?thesis
        unfolding kv by (simp add: assign_fresh child_result_def)
    next
      case (Inl e)
      with Cons.prems Cons.IH[OF _ _ disj[of "dict_fallback S H v"]] False fresh show ?thesis
        unfolding kv by (simp add: assign_fresh child_result_def split: if_splits)
    qed
  qed
qed

lemma clean_items_returns:
  "\<forall>kv \<in> set items. \<not> key_unsafe (fst kv) \<longrightarrow> rec (snd kv) \<noteq> Inl BaseError \<Longrightarrow>
   \<exists>out. clean_items S H rec items cleaned = Inr out"
proof (induction items arbitrary: cleaned)
  case Nil then show ?case by auto
next
  case (Cons kv items)
  obtain k v where kv: "kv = (k, v)" by (cases kv)
  from Cons.prems have nb: "\<not> key_unsafe k \<Longrightarrow> rec v \<noteq> Inl BaseError" by (simp add: kv)
  have exc: "\<And>e. rec v = Inl e \<Longrightarrow> \<not> key_unsafe k \<Longrightarrow> is_Exception e"
    using nb by (case_tac e) auto
  from Cons.prems Cons.IH show ?case unfolding kv
    by (auto split: sum.splits dest: exc)
qed

lemma clean_items_cong:
  "\<forall>kv \<in> set items. rec (snd kv) = rec' (snd kv) \<Longrightarrow>
   clean_items S H rec items cleaned = clean_items S H rec' items cleaned"
  by (induction items arbitrary: cleaned) (auto split: sum.splits)

lemma render_item_out:
  "render_item S x = Inr r \<Longrightarrow> r = ONone \<or> (\<exists>s. r = OStr s \<and> length s \<le> 100)"
  by (auto simp: render_item_def split: if_splits sum.splits)

lemma list_fallback_out:
  assumes "list_fallback S items = Inr out"
  shows "\<exists>rs. out = OList rs \<and> length rs = min 50 (length items) \<and>
           (\<forall>r \<in> set rs. r = ONone \<or> (\<exists>s. r = OStr s \<and> length s \<le> 100))"
proof -
  from assms obtain rs where c: "collect (map (render_item S) (take 50 items)) = Inr rs"
    and out: "out = OList rs"
    by (auto simp: list_fallback_def split: sum.splits)
  from collect_Inr_set[OF c] render_item_out have
    "length rs = min 50 (length items)"
    "\<forall>r \<in> set rs. r = ONone \<or> (\<exists>s. r = OStr s \<and> length s \<le> 100)"
    by (auto simp: min_def) blast
  with out show ?thesis by blast
qed

lemma take_100_limited: "(if length xs > 100 then take 100 xs else xs) = take 100 xs"
  by simp

lemma clean_list_out:
  assumes "clean_list S rec items = Inr out"
  shows "\<exists>rs. out = OList rs \<and> length rs \<le> 100 \<and>
           (\<forall>r \<in> set rs. (\<exists>x \<in> set items. rec x = Inr r) \<or> r = ONone \<or>
                          (\<exists>s. r = OStr s \<and> length s \<le> 100))"
proof (cases "collect (map rec (take 100 items))")
  case (Inr rs)
  with assms have out: "out = OList rs" by (auto simp: clean_list_def Let_def split: if_splits)
  from collect_Inr_set[OF Inr] have "length rs \<le> 100"
    "\<forall>r \<in> set rs. \<exists>x \<in> set (take 100 items). rec x = Inr r" by auto
  then have "\<forall>r \<in> set rs. \<exists>x \<in> set items. rec x = Inr r"
    by (meson in_set_takeD)
  with out \<open>length rs \<le> 100\<close> show ?thesis by blast
next
  case (Inl e)
  with assms have "list_fallback S items = Inr out"
    by (auto simp: clean_list_def Let_def split: if_splits)
  from list_fallback_out[OF this] show ?thesis by force
qed

lemma clean_list_cong:
  "\<forall>x \<in> set items. rec x = rec' x \<Longrightarrow> clean_list S rec items = clean_list S rec' items"
proof -
  assume a: "\<forall>x \<in> set items. rec x = rec' x"
  then have "map rec (take 100 items) = map rec' (take 100 items)"
    by (auto dest: in_set_takeD)
  then show ?thesis
    unfolding clean_list_def Let_def take_100_limited by (simp only:)
qed

lemma clean_list_first_fails:
  "rec x = Inl e \<Longrightarrow> clean_list S rec (x # xs) = list_fallback S (x # xs)"
  by (simp add: clean_list_def Let_def)

lemma list_fallback_returns:
  assumes "\<forall>item \<in> set (take 50 items). item \<noteq> PNone \<longrightarrow> \<not> isl (S item)"
  shows "\<exists>rs. list_fallback S items = Inr (OList rs) \<and> length rs = min 50 (length items) \<and>
            map Inr rs = map (render_item S) (take 50 items)"
proof -
  let ?g = "\<lambda>item. if item \<noteq> PNone then OStr (take 100 (projr (S item))) else ONone"
  have r: "\<forall>item \<in> set (take 50 items). render_item S item = Inr (?g item)"
    using assms by (auto simp: render_item_def split: sum.splits)
  then have c: "collect (map (render_item S) (take 50 items)) = Inr (map ?g (take 50 items))"
    by (rule collect_map_Inr)
  then have "list_fallback S items = Inr (OList (map ?g (take 50 items)))"
    by (simp add: list_fallback_def)
  moreover have "length (map ?g (take 50 items)) = min 50 (length items)"
    by (simp add: min.commute)
  moreover from collect_Inr[OF c] have
    "map Inr (map ?g (take 50 items)) = map (render_item S) (take 50 items)" by simp
  ultimately show ?thesis by blast
qed

section \<open>The branches of the sanitizer\<close>

lemma clean_list_obj:
  "H a = ListObj items \<Longrightarrow>
   clean S H (Suc n) (PRef a) seen = (clean_list S (\<lambda>item. fst (clean S H n item seen)) items, seen)"
  by simp

lemma clean_dict_eq:
  assumes H: "H a = DictObj items" and a: "a \<notin> seen" and d: "distinct (map fst items)"
    and r: "fst (clean S H (Suc n) (PRef a) seen) = Inr out"
  shows "out = ODict (map (\<lambda>kv. (fst kv, child_result S H (\<lambda>v. fst (clean S H n v (insert a seen))) (snd kv)))
                       (filter (\<lambda>kv. \<not> key_unsafe (fst kv)) items))"
proof -
  let ?rec = "\<lambda>v. fst (clean S H n v (insert a seen))"
  from H a r obtain cleaned where ci: "clean_items S H ?rec items [] = Inr cleaned"
    and out: "out = ODict cleaned"
    by (auto simp: Let_def split: sum.splits)
  from clean_items_Inr_eq[OF ci d] out show ?thesis by simp
qed

lemma clean_dict_returns:
  assumes H: "H a = DictObj items" and a: "a \<notin> seen"
    and nb: "\<forall>kv \<in> set items. \<not> key_unsafe (fst kv) \<longrightarrow> fst (clean S H n (snd kv) (insert a seen)) \<noteq> Inl BaseError"
  shows "\<exists>out. clean S H (Suc n) (PRef a) seen = (Inr out, seen)"
proof -
  let ?rec = "\<lambda>v. fst (clean S H n v (insert a seen))"
  from clean_items_returns[of items ?rec S H "[]"] nb obtain cleaned where
    "clean_items S H ?rec items [] = Inr cleaned" by blast
  with H a show ?thesis by (simp add: Let_def)
qed

lemma map_of_child:
  "distinct (map fst items) \<Longrightarrow> (k, v) \<in> set items \<Longrightarrow> \<not> key_unsafe k \<Longrightarrow>
   map_of (map (\<lambda>kv. (fst kv, f (snd kv))) (filter (\<lambda>kv. \<not> key_unsafe (fst kv)) items)) k
     = Some (f v)"
proof (induction items)
  case Nil
  then show ?case by simp
next
  case (Cons kv items)
  then show ?case by (cases kv) (auto simp: rev_image_eqI)
qed

section \<open>What every result looks like\<close>

lemma clean_out_all:
  assumes sc: "P ONone" "\<And>b. P (OBool b)" "\<And>i. P (OInt i)" "\<And>f. P (OFloat f)"
      and st: "\<And>s. length s \<le> 200 \<or> PStr s \<in> V \<or> s \<in> type_strings H \<Longrightarrow> P (OStr s)"
      and ls: "\<And>xs. length xs \<le> 100 \<Longrightarrow> P (OList xs)"
      and dc: "\<And>kvs. distinct (map fst kvs) \<Longrightarrow>
                 fst ` set kvs \<subseteq> insert (PStr ''_circular_ref'') {k \<in> heap_keys H. \<not> key_unsafe k} \<Longrightarrow>
                 P (ODict kvs)"
      and V: "heap_values H \<subseteq> V"
  shows "obj \<in> V \<Longrightarrow> fst (clean S H n obj seen) = Inr out \<Longrightarrow> out_all P out"
proof (induction n arbitrary: obj seen out)
  case 0
  then show ?case by simp
next
  case (Suc n)
  have short: "\<And>s. length s \<le> 200 \<Longrightarrow> P (OStr s)" using st by blast
  have tname: "\<And>v. P (OStr (type_name H v))" "\<And>v. P (OStr (''<'' @ type_name H v @ ''>''))"
    using st by (auto simp: type_strings_def)
  have fb: "out_all P (dict_fallback S H v)" for v
    using sc(1) short tname(2)[of v] by (auto simp: dict_fallback_def split: sum.splits)
  show ?case
  proof (cases obj)
    case PNone with Suc.prems sc show ?thesis by auto
  next
    case (PBool b) with Suc.prems sc show ?thesis by auto
  next
    case (PInt i) with Suc.prems sc show ?thesis by auto
  next
    case (PFloat f) with Suc.prems sc show ?thesis by auto
  next
    case (PStr s) with Suc.prems st[of s] show ?thesis by auto
  next
    case (PRef a)
    show ?thesis
    proof (cases "H a")
      case (OtherObj c d nm)
      have nm: "type_name H (PRef a) = nm" using OtherObj by simp
      show ?thesis
      proof (cases "c \<or> d")
        case True
        with Suc.prems PRef OtherObj have "out = OStr nm" by auto
        with tname(1)[of "PRef a"] nm show ?thesis by simp
      next
        case False
        with Suc.prems PRef OtherObj have "out = render_other S H (PRef a)" by auto
        with short tname(2)[of "PRef a"] show ?thesis
          by (auto simp: render_other_def split: sum.splits)
      qed
    next
      case (ListObj items)
      with Suc.prems PRef have
        "clean_list S (\<lambda>item. fst (clean S H n item seen)) items = Inr out" by simp
      from clean_list_out[OF this] obtain rs where out: "out = OList rs"
        and len: "length rs \<le> 100"
        and el: "\<forall>r \<in> set rs. (\<exists>x \<in> set items. fst (clean S H n x seen) = Inr r) \<or> r = ONone \<or>
                          (\<exists>s. r = OStr s \<and> length s \<le> 100)" by blast
      have "out_all P r" if "r \<in> set rs" for r
      proof -
        from el that consider x where "x \<in> set items" "fst (clean S H n x seen) = Inr r"
          | "r = ONone" | s where "r = OStr s" "length s \<le> 100" by blast
        then show ?thesis
        proof cases
          case 1
          from 1(1) ListObj V have "x \<in> V" by (auto simp: heap_values_def)
          from Suc.IH[OF this 1(2)] show ?thesis .
        next
          case 2 with sc show ?thesis by simp
        next
          case 3 with short[of s] show ?thesis by simp
        qed
      qed
      with out ls[OF len] show ?thesis by simp
    next
      case (DictObj items)
      show ?thesis
      proof (cases "a \<in> seen")
        case True
        with Suc.prems PRef DictObj have out: "out = circular_marker H (PRef a)" by simp
        have "P (OStr ''Reference to dict'')" by (rule short) simp
        moreover have "P (ODict [(PStr ''_circular_ref'', OStr ''Reference to dict'')])"
          by (rule dc) auto
        ultimately show ?thesis using out DictObj by (simp add: circular_marker_def)
      next
        case False
        let ?rec = "\<lambda>v. fst (clean S H n v (insert a seen))"
        from False Suc.prems PRef DictObj obtain cleaned where
          ci: "clean_items S H ?rec items [] = Inr cleaned" and out: "out = ODict cleaned"
          by (auto simp: Let_def split: sum.splits)
        have keys: "fst ` set cleaned \<subseteq> {k \<in> heap_keys H. \<not> key_unsafe k}"
        proof
          fix k assume "k \<in> fst ` set cleaned"
          with clean_items_keys[OF ci] have "k \<in> fst ` set items" "\<not> key_unsafe k" by auto
          with DictObj show "k \<in> {k \<in> heap_keys H. \<not> key_unsafe k}"
            unfolding heap_keys_def by blast
        qed
        have dist: "distinct (map fst cleaned)"
          using clean_items_distinct[OF ci] by simp
        have "out_all P (child_result S H ?rec (snd kv))" if "kv \<in> set items" for kv
        proof (cases "?rec (snd kv)")
          case (Inl e)
          then show ?thesis using fb by (simp add: child_result_def)
        next
          case (Inr r)
          from that DictObj V have "snd kv \<in> V" by (auto simp: heap_values_def)
          from Suc.IH[OF this Inr] Inr show ?thesis by (simp add: child_result_def)
        qed
        then have "\<forall>kr \<in> set cleaned. out_all P (snd kr)"
          using clean_items_values[OF ci, of "out_all P"] by simp
        moreover have "P (ODict cleaned)" using dc[OF dist] keys by blast
        ultimately show ?thesis using out by simp
      qed
    qed
  qed
qed


lemma clean_shaped: "fst (clean S H n obj seen) = Inr out \<Longrightarrow> shaped out"
  unfolding shaped_def
  by (rule clean_out_all[where V = UNIV, rotated -1]) (auto simp: list_all_iff unsafe_keys_def)

lemma shaped_list: "shaped (OList rs) \<Longrightarrow> length rs \<le> 100 \<and> (\<forall>r \<in> set rs. shaped r)"
  by (simp add: shaped_def)

lemma shaped_dict:
  assumes "shaped (ODict krs)"
  shows "distinct (map fst krs) \<and> (\<forall>kr \<in> set krs. \<not> key_unsafe (fst kr)) \<and>
         (\<forall>kr \<in> set krs. shaped (snd kr))"
proof -
  from assms have 1: "distinct (map fst krs)"
    and 2: "list_all (\<lambda>k. \<not> key_unsafe k) (map fst krs)"
    and 3: "\<forall>kr \<in> set krs. shaped (snd kr)"
    by (simp_all add: shaped_def)
  from 2 have "\<forall>kr \<in> set krs. \<not> key_unsafe (fst kr)" by (simp add: list_all_iff)
  with 1 3 show ?thesis by blast
qed

lemma foldr_max_ge: "x \<in> set xs \<Longrightarrow> x \<le> foldr max xs (0::nat)"
  by (induction xs) (auto simp: max_def)

lemma foldr_max_le: "(\<forall>x \<in> set xs. x \<le> b) \<Longrightarrow> foldr max xs (0::nat) \<le> b"
  by (induction xs) auto

lemma depth_pos: "0 < depth r"
  by (cases r) simp_all

lemma depth_item: "r \<in> set rs \<Longrightarrow> depth r < depth (OList rs)"
  using foldr_max_ge[of "depth r" "map depth rs"] by (simp add: less_Suc_eq_le)

lemma depth_entry: "kr \<in> set krs \<Longrightarrow> depth (snd kr) < depth (ODict krs)"
  using foldr_max_ge[of "depth (snd kr)" "map (\<lambda>kv. depth (snd kv)) krs"]
  by (simp add: less_Suc_eq_le)

lemma depth_dict_fallback: "depth (dict_fallback S H v) = Suc 0"
  by (simp add: dict_fallback_def split: sum.splits)

lemma clean_depth: "fst (clean S H n obj seen) = Inr out \<Longrightarrow> depth out \<le> Suc n"
proof (induction n arbitrary: obj seen out)
  case 0
  then show ?case by simp
next
  case (Suc n)
  show ?case
  proof (cases obj)
    case (PRef a)
    show ?thesis
    proof (cases "H a")
      case (OtherObj c d nm)
      with Suc.prems PRef show ?thesis
        by (auto simp: render_other_def split: if_splits sum.splits)
    next
      case (ListObj items)
      with Suc.prems PRef have
        "clean_list S (\<lambda>item. fst (clean S H n item seen)) items = Inr out" by simp
      from clean_list_out[OF this] obtain rs where out: "out = OList rs"
        and el: "\<forall>r \<in> set rs. (\<exists>x \<in> set items. fst (clean S H n x seen) = Inr r) \<or> r = ONone \<or>
                          (\<exists>s. r = OStr s \<and> length s \<le> 100)" by blast
      have "depth r \<le> Suc n" if "r \<in> set rs" for r
        using el that Suc.IH by fastforce
      then have "foldr max (map depth rs) 0 \<le> Suc n" by (intro foldr_max_le) auto
      with out show ?thesis by simp
    next
      case (DictObj items)
      show ?thesis
      proof (cases "a \<in> seen")
        case True
        with Suc.prems PRef DictObj show ?thesis by (auto simp: circular_marker_def)
      next
        case False
        let ?rec = "\<lambda>v. fst (clean S H n v (insert a seen))"
        from False Suc.prems PRef DictObj obtain cleaned where
          ci: "clean_items S H ?rec items [] = Inr cleaned" and out: "out = ODict cleaned"
          by (auto simp: Let_def split: sum.splits)
        have "depth (child_result S H ?rec (snd kv)) \<le> Suc n" for kv :: "pyval \<times> pyval"
          using Suc.IH[of "snd kv" "insert a seen"]
          by (cases "?rec (snd kv)") (simp_all add: child_result_def depth_dict_fallback)
        then have "\<forall>kr \<in> set cleaned. depth (snd kr) \<le> Suc n"
          using clean_items_values[OF ci, of "\<lambda>r. depth r \<le> Suc n"] by simp
        then have "foldr max (map (\<lambda>kv. depth (snd kv)) cleaned) 0 \<le> Suc n"
          by (intro foldr_max_le) auto
        with out show ?thesis by simp
      qed
    qed
  qed (use Suc.prems in auto)
qed

section \<open>The set of visited dicts\<close>

lemma clean_seen_cong:
  "(\<And>b. reach H obj b \<Longrightarrow> (b \<in> seen \<longleftrightarrow> b \<in> seen')) \<Longrightarrow>
   fst (clean S H n obj seen) = fst (clean S H n obj seen')"
proof (induction n arbitrary: obj seen seen')
  case 0
  then show ?case by simp
next
  case (Suc n)
  show ?case
  proof (cases obj)
    case (PRef a)
    show ?thesis
    proof (cases "H a")
      case (OtherObj c d nm)
      with PRef show ?thesis by simp
    next
      case (ListObj items)
      have "fst (clean S H n x seen) = fst (clean S H n x seen')" if "x \<in> set items" for x
      proof (rule Suc.IH)
        fix b assume "reach H x b"
        with ListObj that have "reach H (PRef a) b" by (rule reach_list)
        with Suc.prems PRef show "b \<in> seen \<longleftrightarrow> b \<in> seen'" by simp
      qed
      then have "clean_list S (\<lambda>item. fst (clean S H n item seen)) items =
                 clean_list S (\<lambda>item. fst (clean S H n item seen')) items"
        by (intro clean_list_cong) simp
      with PRef ListObj show ?thesis by simp
    next
      case (DictObj items)
      have mem: "a \<in> seen \<longleftrightarrow> a \<in> seen'"
        using Suc.prems[of a] PRef reach_self by simp
      have "fst (clean S H n (snd kv) (insert a seen)) = fst (clean S H n (snd kv) (insert a seen'))"
        if "kv \<in> set items" for kv
      proof (rule Suc.IH)
        fix b assume r: "reach H (snd kv) b"
        from that have "(fst kv, snd kv) \<in> set items" by simp
        from reach_dict[OF DictObj this r] Suc.prems PRef
        show "b \<in> insert a seen \<longleftrightarrow> b \<in> insert a seen'" by simp
      qed
      then have "clean_items S H (\<lambda>v. fst (clean S H n v (insert a seen))) items [] =
                 clean_items S H (\<lambda>v. fst (clean S H n v (insert a seen'))) items []"
        by (intro clean_items_cong) simp
      with PRef DictObj mem show ?thesis by (simp add: Let_def split: sum.splits)
    qed
  qed simp_all
qed

lemma shared_heap_reach: "reach shared_heap (PRef 1) b \<Longrightarrow> b = 1"
  by (erule reach.cases) (auto simp: shared_heap_def elim: reach.cases split: if_splits)

section \<open>Sanitizing a copy of a result\<close>

lemma list_all2_right_unique:
  "list_all2 R xs ys \<Longrightarrow> list_all2 R xs ys' \<Longrightarrow>
   (\<And>x y y'. y \<in> set ys \<Longrightarrow> R x y \<Longrightarrow> R x y' \<Longrightarrow> y = y') \<Longrightarrow> ys = ys'"
proof (induction xs ys arbitrary: ys' rule: list_all2_induct)
  case Nil
  then show ?case by simp
next
  case (Cons x xs y ys)
  from Cons.prems(1) obtain y' ys'' where ys': "ys' = y' # ys''" "R x y'" "list_all2 R xs ys''"
    by (auto simp: list_all2_Cons1)
  from Cons.prems(2)[of y x y'] Cons.hyps(1) ys'(2) have "y = y'" by simp
  moreover from Cons.IH[OF ys'(3)] Cons.prems(2) have "ys = ys''" by simp
  ultimately show ?case using ys'(1) by simp
qed

lemma repr_list:
  "repr H v (OList rs) \<longleftrightarrow> (\<exists>a items. v = PRef a \<and> H a = ListObj items \<and> list_all2 (repr H) items rs)"
  by (auto split: pyval.splits pyobj.splits)

lemma repr_dict:
  "repr H v (ODict krs) \<longleftrightarrow>
     (\<exists>a items. v = PRef a \<and> H a = DictObj items \<and> map fst items = map fst krs \<and>
        list_all2 (repr H) (map snd items) (map snd krs))"
  by (auto split: pyval.splits pyobj.splits)

lemma repr_fun: "repr H v r \<Longrightarrow> repr H v r' \<Longrightarrow> r = r'"
proof (induction r arbitrary: v r')
  case (OList rs)
  from OList.prems(1) obtain a items where v: "v = PRef a" "H a = ListObj items"
    and l: "list_all2 (repr H) items rs" unfolding repr_list by blast
  from OList.prems(2) v obtain rs' where r': "r' = OList rs'" and l': "list_all2 (repr H) items rs'"
    by (cases r') auto
  from list_all2_right_unique[OF l l'] OList.IH have "rs = rs'" by blast
  with r' show ?case by simp
next
  case (ODict krs)
  from ODict.prems(1) obtain a items where v: "v = PRef a" "H a = DictObj items"
    and k: "map fst items = map fst krs"
    and l: "list_all2 (repr H) (map snd items) (map snd krs)" unfolding repr_dict by blast
  from ODict.prems(2) v obtain krs' where r': "r' = ODict krs'"
    and k': "map fst items = map fst krs'"
    and l': "list_all2 (repr H) (map snd items) (map snd krs')"
    by (cases r') auto
  have u: "y = y'" if "y \<in> set (map snd krs)" and xy: "repr H x y" "repr H x y'" for x y y'
  proof -
    from that(1) obtain kr where "kr \<in> set krs" "y \<in> Basic_BNFs.snds kr" by force
    from ODict.IH[OF this xy] show "y = y'" .
  qed
  have "map snd krs = map snd krs'"
    by (rule list_all2_right_unique[OF l l']) (rule u)
  moreover from k k' have "map fst krs = map fst krs'" by simp
  ultimately have "krs = krs'" by (rule pair_list_eqI[rotated])
  with r' show ?case by simp
qed (case_tac [!] r', auto)

lemma clean_repr:
  "repr H v out \<Longrightarrow> shaped out \<Longrightarrow> depth out \<le> m \<Longrightarrow>
   (\<And>b r. b \<in> seen \<Longrightarrow> repr H (PRef b) r \<Longrightarrow> depth out < depth r) \<Longrightarrow>
   fst (clean S H m v seen) = Inr out"
proof (induction m arbitrary: v out seen)
  case 0
  with depth_pos[of out] show ?case by simp
next
  case (Suc m)
  show ?case
  proof (cases out)
    case ONone with Suc.prems(1) show ?thesis by simp
  next
    case (OBool b) with Suc.prems(1) show ?thesis by simp
  next
    case (OInt i) with Suc.prems(1) show ?thesis by simp
  next
    case (OFloat f) with Suc.prems(1) show ?thesis by simp
  next
    case (OStr s) with Suc.prems(1) show ?thesis by simp
  next
    case (OList rs)
    from Suc.prems(1) obtain a items where v: "v = PRef a" and h: "H a = ListObj items"
      and l: "list_all2 (repr H) items rs" unfolding OList repr_list by blast
    from Suc.prems(2) have len: "length rs \<le> 100" and sh: "\<forall>r \<in> set rs. shaped r"
      unfolding OList using shaped_list by blast+
    from l have ll: "length items = length rs" by (rule list_all2_lengthD)
    have "list_all2 (\<lambda>x r. fst (clean S H m x seen) = Inr r) items rs"
      unfolding list_all2_conv_all_nth
    proof (intro conjI allI impI)
      show "length items = length rs" by (rule ll)
    next
      fix i assume i: "i < length items"
      then have mem: "rs ! i \<in> set rs" using ll by simp
      from l i have rp: "repr H (items ! i) (rs ! i)" by (simp add: list_all2_nthD)
      from depth_item[OF mem] have d: "depth (rs ! i) < depth out" by (simp add: OList)
      show "fst (clean S H m (items ! i) seen) = Inr (rs ! i)"
      proof (rule Suc.IH[OF rp])
        show "shaped (rs ! i)" using sh mem by blast
        show "depth (rs ! i) \<le> m" using d Suc.prems(3) by simp
        show "depth (rs ! i) < depth r" if "b \<in> seen" "repr H (PRef b) r" for b r
          using Suc.prems(4)[OF that] d by simp
      qed
    qed
    then have "collect (map (\<lambda>item. fst (clean S H m item seen)) items) = Inr rs"
      by (rule collect_list_all2)
    with len ll have "clean_list S (\<lambda>item. fst (clean S H m item seen)) items = Inr (OList rs)"
      by (simp add: clean_list_def)
    with v h OList show ?thesis by simp
  next
    case (ODict krs)
    from Suc.prems(1) obtain a items where v: "v = PRef a" and h: "H a = DictObj items"
      and k: "map fst items = map fst krs"
      and l: "list_all2 (repr H) (map snd items) (map snd krs)"
      unfolding ODict repr_dict by blast
    from Suc.prems(2) have dist: "distinct (map fst krs)"
      and safe: "\<forall>kr \<in> set krs. \<not> key_unsafe (fst kr)"
      and sh: "\<forall>kr \<in> set krs. shaped (snd kr)"
      unfolding ODict using shaped_dict by blast+
    from k have ll: "length items = length krs" by (metis length_map)
    have a: "a \<notin> seen"
    proof
      assume "a \<in> seen"
      from Suc.prems(4)[OF this, of out] Suc.prems(1) v show False by simp
    qed
    let ?rec = "\<lambda>x. fst (clean S H m x (insert a seen))"
    have child: "?rec (snd (items ! i)) = Inr (snd (krs ! i))" if i: "i < length items" for i
    proof -
      from i have mem: "krs ! i \<in> set krs" using ll by simp
      from l i ll have rp: "repr H (snd (items ! i)) (snd (krs ! i))"
        using list_all2_nthD[OF l, of i] by simp
      from depth_entry[OF mem] have d: "depth (snd (krs ! i)) < depth out" by (simp add: ODict)
      show ?thesis
      proof (rule Suc.IH[OF rp])
        show "shaped (snd (krs ! i))" using sh mem by blast
        show "depth (snd (krs ! i)) \<le> m" using d Suc.prems(3) by simp
        show "depth (snd (krs ! i)) < depth r" if b: "b \<in> insert a seen" and r: "repr H (PRef b) r" for b r
        proof (cases "b = a")
          case True
          with r Suc.prems(1) v have "r = out" using repr_fun by blast
          with d show ?thesis by simp
        next
          case False
          with b have "b \<in> seen" by simp
          from Suc.prems(4)[OF this r] d show ?thesis by simp
        qed
      qed
    qed
    have safe_items: "\<forall>kv \<in> set items. \<not> key_unsafe (fst kv)"
    proof
      fix kv assume "kv \<in> set items"
      then have "fst kv \<in> set (map fst krs)" unfolding k[symmetric] by simp
      with safe show "\<not> key_unsafe (fst kv)" by auto
    qed
    have ok: "\<forall>kv \<in> set items. \<not> key_unsafe (fst kv) \<longrightarrow> ?rec (snd kv) \<noteq> Inl BaseError"
    proof (intro ballI impI)
      fix kv assume "kv \<in> set items"
      then obtain i where "i < length items" "kv = items ! i" by (auto simp: in_set_conv_nth)
      with child[of i] show "?rec (snd kv) \<noteq> Inl BaseError" by simp
    qed
    from clean_items_returns[OF ok, of S H "[]"] obtain cleaned where
      ci: "clean_items S H ?rec items [] = Inr cleaned" by blast
    from dist k have "distinct (map fst items)" by simp
    from clean_items_Inr_eq[OF ci this] safe_items have
      cl: "cleaned = map (\<lambda>kv. (fst kv, child_result S H ?rec (snd kv))) items" by simp
    have "cleaned = krs"
    proof (rule pair_list_eqI)
      show "map fst cleaned = map fst krs" unfolding cl using k by (simp add: comp_def)
      show "map snd cleaned = map snd krs"
      proof (rule nth_equalityI)
        show "length (map snd cleaned) = length (map snd krs)" unfolding cl using ll by simp
      next
        fix i assume "i < length (map snd cleaned)"
        then have i: "i < length items" unfolding cl by simp
        with child[OF i] ll show "map snd cleaned ! i = map snd krs ! i"
          unfolding cl by (simp add: child_result_def)
      qed
    qed
    with ci v h a ODict show ?thesis by (simp add: Let_def)
  qed
qed

section \<open>A list that contains itself\<close>

lemma cyclic_list_fallback: "list_fallback cyclic_str [PRef 1, PRef 2] = Inl StrError"
  by (simp add: list_fallback_def render_item_def cyclic_str_def)

lemma cyclic_list_raises:
  "fst (clean cyclic_str cyclic_heap (Suc n) (PRef 1) seen) = Inl StrError"
proof -
  have h: "cyclic_heap 1 = ListObj [PRef 1, PRef 2]" by (simp add: cyclic_heap_def)
  have step: "fst (clean cyclic_str cyclic_heap (Suc k) (PRef 1) seen) = Inl StrError"
    if "fst (clean cyclic_str cyclic_heap k (PRef 1) seen) = Inl e" for k e
    unfolding clean_list_obj[where H = cyclic_heap and a = 1, OF h] fst_conv clean_list_first_fails[where rec = "\<lambda>item. fst (clean cyclic_str cyclic_heap k item seen)", OF that]
    by (rule cyclic_list_fallback)
  show ?thesis
  proof (induction n)
    case 0
    show ?case by (rule step[of 0 RecursionError]) simp
  next
    case (Suc n)
    then show ?case by (rule step)
  qed
qed

section \<open>The claims\<close>

text \<open>
  C1. The claim fails on the code. A list that contains itself is not entered in \<open>seen\<close>, so
  the recursion on it ends only by \<^verbatim>\<open>RecursionError\<close>; the handler of the list branch then
  calls \<^verbatim>\<open>str\<close> on every item with no handler of its own, and the exception of an item
  whose \<^verbatim>\<open>__str__\<close> raises leaves the sanitizer, at every level up to the first call. For
  \<^verbatim>\<open>l = [l, Bad()]\<close> the sanitizer raises whatever the recursion limit.
\<close>

theorem cyclic_list_with_bad_str_raises:
  "sanitize cyclic_str cyclic_heap (Suc n) (PRef 1) = Inl StrError"
  by (simp only: sanitize_def cyclic_list_raises)




text \<open>
  C3, as the claim states it, fails for sequences: when sanitizing one item raises, the whole
  comprehension is abandoned and every item is rendered by the handler. In \<^verbatim>\<open>[7, l]\<close> the
  item 7, which is sanitized to the integer 7 on its own, comes out as the string
  \<^verbatim>\<open>'7'\<close> (here at the default recursion limit of 1000).
\<close>

theorem sibling_rendered_counterexample:
  "fst (clean cyclic_str cyclic_heap 999 (PInt 7) {}) = Inr (OInt 7) \<and>
   isl (fst (clean cyclic_str cyclic_heap 999 (PRef 1) {})) \<and>
   sanitize cyclic_str cyclic_heap 1000 (PRef 0) =
     Inr (OList [OStr ''7'', OStr ''[[...], <Bad object>]''])"
proof -
  have n: "(999::nat) = Suc 998" "(1000::nat) = Suc (Suc 998)" by simp_all
  have h: "cyclic_heap 0 = ListObj [PInt 7, PRef 1]" by (simp add: cyclic_heap_def)
  have 1: "fst (clean cyclic_str cyclic_heap (Suc 998) (PInt 7) {}) = Inr (OInt 7)"
    by (simp only: clean.simps fst_conv)
  have 2: "fst (clean cyclic_str cyclic_heap (Suc 998) (PRef 1) {}) = Inl StrError"
    by (rule cyclic_list_raises)
  have "isl (collect (map (\<lambda>item. fst (clean cyclic_str cyclic_heap (Suc 998) item {}))
          (take 100 [PInt 7, PRef 1])))"
    unfolding collect_isl using 2 by simp
  then have "clean_list cyclic_str (\<lambda>item. fst (clean cyclic_str cyclic_heap (Suc 998) item {}))
          [PInt 7, PRef 1] = list_fallback cyclic_str [PInt 7, PRef 1]"
    unfolding clean_list_def Let_def by (auto split: sum.splits)
  moreover have "list_fallback cyclic_str [PInt 7, PRef 1] =
      Inr (OList [OStr ''7'', OStr ''[[...], <Bad object>]''])"
    by (simp add: list_fallback_def render_item_def cyclic_str_def)
  ultimately have 3: "sanitize cyclic_str cyclic_heap (Suc (Suc 998)) (PRef 0) =
     Inr (OList [OStr ''7'', OStr ''[[...], <Bad object>]''])"
    unfolding sanitize_def clean_list_obj[where H = cyclic_heap and a = 0, OF h] by simp
  from 1 2 3 show ?thesis unfolding n by simp
qed

text \<open>
  C3, amended. In a mapping, a child whose sanitization raises an exception of class
  \<^verbatim>\<open>Exception\<close> is replaced by the handler's value and every other key holds the result of
  its own child: the mapping is returned with, under each key that is not unsafe, what that
  child alone gives. In a sequence, an exception from any one of the first 100 items replaces
  the whole result by what the handler makes of the sequence, the rendering of the first 50
  items.
\<close>

theorem child_failure_isolated:
  "(H a = DictObj items \<and> a \<notin> seen \<and> distinct (map fst items) \<and>
    (\<forall>kv \<in> set items. \<not> key_unsafe (fst kv) \<longrightarrow>
        fst (clean S H n (snd kv) (insert a seen)) \<noteq> Inl BaseError) \<longrightarrow>
      clean S H (Suc n) (PRef a) seen =
        (Inr (ODict (map (\<lambda>kv. (fst kv,
                 child_result S H (\<lambda>v. fst (clean S H n v (insert a seen))) (snd kv)))
               (filter (\<lambda>kv. \<not> key_unsafe (fst kv)) items))), seen)) \<and>
   (H b = ListObj items' \<and>
    (\<exists>item \<in> set (take 100 items'). isl (fst (clean S H m item seen'))) \<longrightarrow>
      clean S H (Suc m) (PRef b) seen' = (list_fallback S items', seen'))"
proof (intro conjI impI)
  assume h: "H a = DictObj items \<and> a \<notin> seen \<and> distinct (map fst items) \<and>
    (\<forall>kv \<in> set items. \<not> key_unsafe (fst kv) \<longrightarrow>
        fst (clean S H n (snd kv) (insert a seen)) \<noteq> Inl BaseError)"
  then obtain out where r: "clean S H (Suc n) (PRef a) seen = (Inr out, seen)"
    using clean_dict_returns[of H a items seen S n] by blast
  with h clean_dict_eq[of H a items seen S n out] show
    "clean S H (Suc n) (PRef a) seen =
        (Inr (ODict (map (\<lambda>kv. (fst kv,
                 child_result S H (\<lambda>v. fst (clean S H n v (insert a seen))) (snd kv)))
               (filter (\<lambda>kv. \<not> key_unsafe (fst kv)) items))), seen)"
    by simp
next
  assume h: "H b = ListObj items' \<and>
    (\<exists>item \<in> set (take 100 items'). isl (fst (clean S H m item seen')))"
  then have "isl (collect (map (\<lambda>item. fst (clean S H m item seen')) (take 100 items')))"
    unfolding collect_isl by auto
  then have "clean_list S (\<lambda>item. fst (clean S H m item seen')) items' = list_fallback S items'"
    unfolding clean_list_def Let_def take_100_limited by (auto split: sum.splits)
  with h show "clean S H (Suc m) (PRef b) seen' = (list_fallback S items', seen')" by simp
qed

theorem child_failure_isolated_witness:
  "cyclic_heap 3 = DictObj [(PStr ''bad'', PRef 1), (PStr ''n'', PInt 7)] \<and>
   3 \<notin> ({} :: addr set) \<and>
   fst (clean cyclic_str cyclic_heap 2 (PRef 1) {3}) = Inl StrError \<and>
   fst (clean cyclic_str cyclic_heap 2 (PInt 7) {3}) = Inr (OInt 7) \<and>
   clean cyclic_str cyclic_heap 3 (PRef 3) {} =
     (Inr (ODict [(PStr ''bad'', OStr ''[[...], <Bad object>]''), (PStr ''n'', OInt 7)]), {}) \<and>
   cyclic_heap 0 = ListObj [PInt 7, PRef 1] \<and>
   clean cyclic_str cyclic_heap 3 (PRef 0) {} =
     (Inr (OList [OStr ''7'', OStr ''[[...], <Bad object>]'']), {})"
proof -
  have h3: "cyclic_heap 3 = DictObj [(PStr ''bad'', PRef 1), (PStr ''n'', PInt 7)]"
    and h0: "cyclic_heap 0 = ListObj [PInt 7, PRef 1]"
    by (simp_all add: cyclic_heap_def)
  have b: "fst (clean cyclic_str cyclic_heap (Suc (Suc 0)) (PRef 1) seen) = Inl StrError" for seen
    by (rule cyclic_list_raises)
  have s: "fst (clean cyclic_str cyclic_heap (Suc (Suc 0)) (PInt 7) {3}) = Inr (OInt 7)" by simp
  note inst = child_failure_isolated[where H = cyclic_heap and S = cyclic_str and a = 3
      and items = "[(PStr ''bad'', PRef 1), (PStr ''n'', PInt 7)]" and seen = "{}"
      and n = "Suc (Suc 0)" and b = 0 and items' = "[PInt 7, PRef 1]" and m = "Suc (Suc 0)"
      and seen' = "{}"]
  from inst h3 b have d: "clean cyclic_str cyclic_heap (Suc (Suc (Suc 0))) (PRef 3) {} =
     (Inr (ODict [(PStr ''bad'', OStr ''[[...], <Bad object>]''), (PStr ''n'', OInt 7)]), {})"
    by (simp add: unsafe_keys_def child_result_def dict_fallback_def cyclic_str_def)
  from inst h0 b have l: "clean cyclic_str cyclic_heap (Suc (Suc (Suc 0))) (PRef 0) {} =
     (Inr (OList [OStr ''7'', OStr ''[[...], <Bad object>]'']), {})"
    by (simp add: list_fallback_def render_item_def cyclic_str_def)
  from h3 h0 b[of "{3}"] s d l show ?thesis by (simp add: numeral_2_eq_2 numeral_3_eq_3)
qed

text \<open>
  C4. A dict whose address is already in \<open>seen\<close> is answered by the marker
  \<^verbatim>\<open>{"_circular_ref": "Reference to dict"}\<close> at once, whatever the recursion limit and
  without looking at its items. So the dict that holds itself under the key \<^verbatim>\<open>self\<close> is
  sanitized, from an empty \<open>seen\<close>, to a dict whose key \<^verbatim>\<open>self\<close> holds the marker (the
  recursion limit allowing the two nested calls).
\<close>

theorem circular_reference_marked:
  "(H a = DictObj items \<and> a \<in> seen \<longrightarrow>
      clean S H (Suc n) (PRef a) seen =
        (Inr (ODict [(PStr ''_circular_ref'', OStr ''Reference to dict'')]), seen)) \<and>
   (H b = DictObj [(PStr ''self'', PRef b)] \<longrightarrow>
      sanitize S H (Suc (Suc m)) (PRef b) =
        Inr (ODict [(PStr ''self'', ODict [(PStr ''_circular_ref'', OStr ''Reference to dict'')])]))"
  by (auto simp: sanitize_def circular_marker_def unsafe_keys_def)

theorem circular_reference_marked_witness:
  "self_heap 0 = DictObj [(PStr ''self'', PRef 0)] \<and> 0 \<in> {0 :: addr} \<and>
   clean scalar_str self_heap 1 (PRef 0) {0} =
     (Inr (ODict [(PStr ''_circular_ref'', OStr ''Reference to dict'')]), {0}) \<and>
   sanitize scalar_str self_heap 2 (PRef 0) =
     Inr (ODict [(PStr ''self'', ODict [(PStr ''_circular_ref'', OStr ''Reference to dict'')])])"
proof -
  have h: "self_heap 0 = DictObj [(PStr ''self'', PRef 0)]" by (simp add: self_heap_def)
  from circular_reference_marked[where H = self_heap and a = 0 and b = 0 and seen = "{0}"
      and items = "[(PStr ''self'', PRef 0)]" and S = scalar_str and n = 0 and m = 0] h
  show ?thesis by (simp add: numeral_2_eq_2)
qed

text \<open>
  C5. A reference is answered by the marker only when it leads back to a dict on the current
  path. When a dict binds a key to a value from which neither the dict itself nor any dict
  already in \<open>seen\<close> can be reached, the result holds under that key exactly what the value
  is sanitized to on its own, from an empty \<open>seen\<close>; this is so at every key bound to the
  value, however many there are. For \<^verbatim>\<open>root = {"a": shared, "b": shared}\<close> with
  \<^verbatim>\<open>shared = {"x": 1}\<close> both keys hold the sanitized \<^verbatim>\<open>{"x": 1}\<close> (the recursion limit
  allowing the three nested calls).
\<close>

theorem shared_reference_not_flagged:
  "(H r = DictObj items \<and> r \<notin> seen \<and> distinct (map fst items) \<and>
    (\<forall>kv \<in> set items. \<not> key_unsafe (fst kv) \<longrightarrow>
        fst (clean S H n (snd kv) (insert r seen)) \<noteq> Inl BaseError) \<and>
    (k, v) \<in> set items \<and> \<not> key_unsafe k \<and> (\<forall>b \<in> insert r seen. \<not> reach H v b) \<longrightarrow>
      (\<exists>cleaned. clean S H (Suc n) (PRef r) seen = (Inr (ODict cleaned), seen) \<and>
                 map_of cleaned k = Some (child_result S H (sanitize S H n) v))) \<and>
   (H p = DictObj [(PStr ''a'', PRef q), (PStr ''b'', PRef q)] \<and>
    H q = DictObj [(PStr ''x'', PInt 1)] \<longrightarrow>
      sanitize S H (Suc (Suc (Suc m))) (PRef p) =
        Inr (ODict [(PStr ''a'', ODict [(PStr ''x'', OInt 1)]),
                    (PStr ''b'', ODict [(PStr ''x'', OInt 1)])]))"
proof (intro conjI impI)
  let ?rec = "\<lambda>v. fst (clean S H n v (insert r seen))"
  let ?cleaned = "map (\<lambda>kv. (fst kv, child_result S H ?rec (snd kv)))
                    (filter (\<lambda>kv. \<not> key_unsafe (fst kv)) items)"
  assume h: "H r = DictObj items \<and> r \<notin> seen \<and> distinct (map fst items) \<and>
    (\<forall>kv \<in> set items. \<not> key_unsafe (fst kv) \<longrightarrow>
        fst (clean S H n (snd kv) (insert r seen)) \<noteq> Inl BaseError) \<and>
    (k, v) \<in> set items \<and> \<not> key_unsafe k \<and> (\<forall>b \<in> insert r seen. \<not> reach H v b)"
  then obtain out where r: "clean S H (Suc n) (PRef r) seen = (Inr out, seen)"
    using clean_dict_returns[of H r items seen S n] by blast
  with h clean_dict_eq[of H r items seen S n out] have out: "out = ODict ?cleaned" by simp
  from h have "map_of ?cleaned k = Some (child_result S H ?rec v)"
    using map_of_child[of items k v "child_result S H ?rec"] by blast
  moreover have "?rec v = sanitize S H n v"
    unfolding sanitize_def using h by (intro clean_seen_cong) auto
  then have "child_result S H ?rec v = child_result S H (sanitize S H n) v"
    by (simp add: child_result_def)
  ultimately show "\<exists>cleaned. clean S H (Suc n) (PRef r) seen = (Inr (ODict cleaned), seen) \<and>
                 map_of cleaned k = Some (child_result S H (sanitize S H n) v)"
    using r out by simp
next
  assume h: "H p = DictObj [(PStr ''a'', PRef q), (PStr ''b'', PRef q)] \<and>
    H q = DictObj [(PStr ''x'', PInt 1)]"
  then have "p \<noteq> q" by auto
  with h show "sanitize S H (Suc (Suc (Suc m))) (PRef p) =
        Inr (ODict [(PStr ''a'', ODict [(PStr ''x'', OInt 1)]),
                    (PStr ''b'', ODict [(PStr ''x'', OInt 1)])])"
    by (simp add: sanitize_def unsafe_keys_def)
qed

theorem shared_reference_not_flagged_witness:
  "shared_heap 0 = DictObj [(PStr ''a'', PRef 1), (PStr ''b'', PRef 1)] \<and>
   shared_heap 1 = DictObj [(PStr ''x'', PInt 1)] \<and>
   0 \<notin> ({} :: addr set) \<and> \<not> reach shared_heap (PRef 1) 0 \<and>
   sanitize scalar_str shared_heap 2 (PRef 1) = Inr (ODict [(PStr ''x'', OInt 1)]) \<and>
   (\<exists>cleaned. clean scalar_str shared_heap 3 (PRef 0) {} = (Inr (ODict cleaned), {}) \<and>
       map_of cleaned (PStr ''a'') = Some (ODict [(PStr ''x'', OInt 1)]) \<and>
       map_of cleaned (PStr ''b'') = Some (ODict [(PStr ''x'', OInt 1)])) \<and>
   sanitize scalar_str shared_heap 3 (PRef 0) =
     Inr (ODict [(PStr ''a'', ODict [(PStr ''x'', OInt 1)]),
                 (PStr ''b'', ODict [(PStr ''x'', OInt 1)])])"
proof -
  have h0: "shared_heap 0 = DictObj [(PStr ''a'', PRef 1), (PStr ''b'', PRef 1)]"
    and h1: "shared_heap 1 = DictObj [(PStr ''x'', PInt 1)]"
    by (simp_all add: shared_heap_def)
  have nr: "\<forall>b \<in> insert 0 {}. \<not> reach shared_heap (PRef 1) b"
    using shared_heap_reach by auto
  have s1: "sanitize scalar_str shared_heap (Suc (Suc 0)) (PRef 1) = Inr (ODict [(PStr ''x'', OInt 1)])"
    by (simp add: sanitize_def shared_heap_def unsafe_keys_def)
  have nb: "\<forall>kv \<in> set [(PStr ''a'', PRef 1), (PStr ''b'', PRef 1)]. \<not> key_unsafe (fst kv) \<longrightarrow>
        fst (clean scalar_str shared_heap (Suc (Suc 0)) (snd kv) (insert 0 {})) \<noteq> Inl BaseError"
    by (simp add: shared_heap_def unsafe_keys_def)
  note inst = shared_reference_not_flagged[where H = shared_heap and S = scalar_str and r = 0
      and seen = "{}" and items = "[(PStr ''a'', PRef 1), (PStr ''b'', PRef 1)]"
      and n = "Suc (Suc 0)" and v = "PRef 1" and p = 0 and q = 1 and m = 0]
  from inst[where k = "PStr ''a''"] h0 nb nr s1 obtain c1 where
    c1: "clean scalar_str shared_heap (Suc (Suc (Suc 0))) (PRef 0) {} = (Inr (ODict c1), {})"
      "map_of c1 (PStr ''a'') = Some (ODict [(PStr ''x'', OInt 1)])"
    by (auto simp: unsafe_keys_def child_result_def)
  from inst[where k = "PStr ''b''"] h0 nb nr s1 obtain c2 where
    c2: "clean scalar_str shared_heap (Suc (Suc (Suc 0))) (PRef 0) {} = (Inr (ODict c2), {})"
      "map_of c2 (PStr ''b'') = Some (ODict [(PStr ''x'', OInt 1)])"
    by (auto simp: unsafe_keys_def child_result_def)
  from c1 c2 have ex: "\<exists>cleaned. clean scalar_str shared_heap (Suc (Suc (Suc 0))) (PRef 0) {} = (Inr (ODict cleaned), {}) \<and>
       map_of cleaned (PStr ''a'') = Some (ODict [(PStr ''x'', OInt 1)]) \<and>
       map_of cleaned (PStr ''b'') = Some (ODict [(PStr ''x'', OInt 1)])"
    by auto
  from inst[where k = "PStr ''a''"] h0 h1 have full:
    "sanitize scalar_str shared_heap (Suc (Suc (Suc 0))) (PRef 0) =
     Inr (ODict [(PStr ''a'', ODict [(PStr ''x'', OInt 1)]),
                 (PStr ''b'', ODict [(PStr ''x'', OInt 1)])])" by blast
  from nr have nr0: "\<not> reach shared_heap (PRef 1) 0" by simp
  from h0 h1 nr0 s1 ex full show ?thesis
    unfolding numeral_2_eq_2 numeral_3_eq_3 by blast
qed

text \<open>
  C6. No key of the unsafe list is a key of any dict in a result. Of a dict that is not being
  revisited, every other key is kept, in order, with the sanitized value of its entry (or the
  handler's value where sanitizing the value raised).
\<close>

theorem unsafe_keys_stripped:
  "(fst (clean S H n obj seen) = Inr out \<longrightarrow> no_unsafe_keys out) \<and>
   (H a = DictObj items \<and> a \<notin> seen' \<and> distinct (map fst items) \<and>
    fst (clean S H (Suc m) (PRef a) seen') = Inr out' \<longrightarrow>
      out' = ODict (map (\<lambda>kv. (fst kv,
                     child_result S H (\<lambda>v. fst (clean S H m v (insert a seen'))) (snd kv)))
                   (filter (\<lambda>kv. \<not> key_unsafe (fst kv)) items)))"
proof (intro conjI impI)
  assume "fst (clean S H n obj seen) = Inr out"
  then show "no_unsafe_keys out"
    unfolding no_unsafe_keys_def
    by (rule clean_out_all[where V = UNIV, rotated -1])
       (auto simp: list_all_iff unsafe_keys_def)
next
  assume "H a = DictObj items \<and> a \<notin> seen' \<and> distinct (map fst items) \<and>
    fst (clean S H (Suc m) (PRef a) seen') = Inr out'"
  then show "out' = ODict (map (\<lambda>kv. (fst kv,
                     child_result S H (\<lambda>v. fst (clean S H m v (insert a seen'))) (snd kv)))
                   (filter (\<lambda>kv. \<not> key_unsafe (fst kv)) items))"
    using clean_dict_eq by blast
qed

theorem unsafe_keys_stripped_witness:
  "client_heap 0 = DictObj [(PStr ''client'', PRef 1), (PStr ''name'', PStr ''ok'')] \<and>
   0 \<notin> ({} :: addr set) \<and>
   distinct (map fst [(PStr ''client'', PRef 1), (PStr ''name'', PStr ''ok'')]) \<and>
   fst (clean scalar_str client_heap 2 (PRef 0) {}) = Inr (ODict [(PStr ''name'', OStr ''ok'')]) \<and>
   no_unsafe_keys (ODict [(PStr ''name'', OStr ''ok'')]) \<and>
   ODict [(PStr ''name'', OStr ''ok'')] =
     ODict [(PStr ''name'', child_result scalar_str client_heap
              (\<lambda>v. fst (clean scalar_str client_heap 1 v {0})) (PStr ''ok''))]"
proof -
  have h: "client_heap 0 = DictObj [(PStr ''client'', PRef 1), (PStr ''name'', PStr ''ok'')]"
    by (simp add: client_heap_def)
  have c: "fst (clean scalar_str client_heap (Suc (Suc 0)) (PRef 0) {}) =
             Inr (ODict [(PStr ''name'', OStr ''ok'')])"
    by (simp add: client_heap_def unsafe_keys_def)
  note inst = unsafe_keys_stripped[where S = scalar_str and H = client_heap
      and n = "Suc (Suc 0)" and obj = "PRef 0" and seen = "{}"
      and out = "ODict [(PStr ''name'', OStr ''ok'')]" and a = 0 and seen' = "{}" and m = "Suc 0"
      and items = "[(PStr ''client'', PRef 1), (PStr ''name'', PStr ''ok'')]"
      and out' = "ODict [(PStr ''name'', OStr ''ok'')]"]
  from inst c have 1: "no_unsafe_keys (ODict [(PStr ''name'', OStr ''ok'')])" by blast
  from inst h c have 2: "ODict [(PStr ''name'', OStr ''ok'')] =
     ODict [(PStr ''name'', child_result scalar_str client_heap
              (\<lambda>v. fst (clean scalar_str client_heap 1 v {0})) (PStr ''ok''))]"
    by (simp add: unsafe_keys_def)
  from h c 1 2 show ?thesis by (simp add: numeral_2_eq_2)
qed

text \<open>
  C7. Every list in a result of the sanitizer has at most 100 items. A list of 150 integers
  is sanitized to the list of its first 100 items (the recursion limit allowing the list and
  its items, two nested calls). The handler of the list branch renders the first 50 items
  only: whatever it returns is the list of their renderings; it does return whenever
  \<^verbatim>\<open>str\<close> renders each of these 50 items, however long the list; and so a list one of
  whose first 100 items fails is sanitized to the renderings of its first 50 items.
\<close>

theorem sequences_bounded:
  "(fst (clean S H n obj seen) = Inr out \<longrightarrow> seqs_bounded out) \<and>
   (H a = ListObj (map PInt xs) \<and> length xs = 150 \<longrightarrow>
      clean S H (Suc (Suc m)) (PRef a) seen' = (Inr (OList (map OInt (take 100 xs))), seen')) \<and>
   (list_fallback S items = Inr out' \<longrightarrow>
      (\<exists>rs. out' = OList rs \<and> length rs = min 50 (length items) \<and>
            map Inr rs = map (render_item S) (take 50 items))) \<and>
   ((\<forall>item \<in> set (take 50 items'). item \<noteq> PNone \<longrightarrow> \<not> isl (S item)) \<longrightarrow>
      (\<exists>rs. list_fallback S items' = Inr (OList rs) \<and> length rs = min 50 (length items') \<and>
            map Inr rs = map (render_item S) (take 50 items')) \<and>
      (H b = ListObj items' \<and>
       (\<exists>item \<in> set (take 100 items'). isl (fst (clean S H k item seen''))) \<longrightarrow>
         (\<exists>rs. clean S H (Suc k) (PRef b) seen'' = (Inr (OList rs), seen'') \<and>
               length rs = min 50 (length items') \<and>
               map Inr rs = map (render_item S) (take 50 items'))))"
proof (intro conjI impI)
  assume "fst (clean S H n obj seen) = Inr out"
  then show "seqs_bounded out"
    unfolding seqs_bounded_def
    by (rule clean_out_all[where V = UNIV, rotated -1]) auto
next
  assume h: "H a = ListObj (map PInt xs) \<and> length xs = 150"
  have "collect (map (\<lambda>item. fst (clean S H (Suc m) item seen')) (map PInt (take 100 xs)))
        = Inr (map OInt (take 100 xs))"
    unfolding map_map by (rule collect_map_Inr) simp
  with h show "clean S H (Suc (Suc m)) (PRef a) seen' = (Inr (OList (map OInt (take 100 xs))), seen')"
    by (simp add: clean_list_def take_map)
next
  assume "list_fallback S items = Inr out'"
  then obtain rs where c: "collect (map (render_item S) (take 50 items)) = Inr rs"
    and out: "out' = OList rs"
    by (auto simp: list_fallback_def split: sum.splits)
  from collect_Inr[OF c] have eq: "map Inr rs = map (render_item S) (take 50 items)" by simp
  then have "length rs = min 50 (length items)" by (metis length_map length_take min.commute)
  with out eq show "\<exists>rs. out' = OList rs \<and> length rs = min 50 (length items) \<and>
            map Inr rs = map (render_item S) (take 50 items)" by blast
next
  assume str: "\<forall>item \<in> set (take 50 items'). item \<noteq> PNone \<longrightarrow> \<not> isl (S item)"
  from list_fallback_returns[OF str]
  show "\<exists>rs. list_fallback S items' = Inr (OList rs) \<and> length rs = min 50 (length items') \<and>
            map Inr rs = map (render_item S) (take 50 items')" .
next
  assume str: "\<forall>item \<in> set (take 50 items'). item \<noteq> PNone \<longrightarrow> \<not> isl (S item)"
    and h: "H b = ListObj items' \<and>
       (\<exists>item \<in> set (take 100 items'). isl (fst (clean S H k item seen'')))"
  from h have "isl (collect (map (\<lambda>item. fst (clean S H k item seen'')) (take 100 items')))"
    unfolding collect_isl by auto
  then have "clean_list S (\<lambda>item. fst (clean S H k item seen'')) items' = list_fallback S items'"
    unfolding clean_list_def Let_def take_100_limited by (auto split: sum.splits)
  with h have "clean S H (Suc k) (PRef b) seen'' = (list_fallback S items', seen'')" by simp
  with list_fallback_returns[OF str]
  show "\<exists>rs. clean S H (Suc k) (PRef b) seen'' = (Inr (OList rs), seen'') \<and>
               length rs = min 50 (length items') \<and>
               map Inr rs = map (render_item S) (take 50 items')" by auto
qed

theorem sequences_bounded_witness:
  "range_heap 0 = ListObj (map PInt (map int [0..<150])) \<and> length (map int [0..<150]) = 150 \<and>
   fst (clean scalar_str range_heap 2 (PRef 0) {}) = Inr (OList (map OInt (map int [0..<100]))) \<and>
   seqs_bounded (OList (map OInt (map int [0..<100]))) \<and>
   list_fallback scalar_str [PStr ''a'', PNone] = Inr (OList [OStr ''a'', ONone]) \<and>
   sixty_heap 0 = ListObj (replicate 60 (PStr ''a'')) \<and>
   length (replicate 60 (PStr ''a'')) = 60 \<and>
   scalar_str (PStr ''a'') = Inr ''a'' \<and>
   list_fallback scalar_str (replicate 60 (PStr ''a'')) = Inr (OList (replicate 50 (OStr ''a''))) \<and>
   fst (clean scalar_str sixty_heap 0 (PStr ''a'') {}) = Inl RecursionError \<and>
   clean scalar_str sixty_heap 1 (PRef 0) {} = (Inr (OList (replicate 50 (OStr ''a''))), {}) \<and>
   length (replicate 50 (OStr ''a'')) = 50"
proof -
  have h: "range_heap 0 = ListObj (map PInt (map int [0..<150])) \<and> length (map int [0..<150]) = 150"
    by (simp add: range_heap_def)
  have e: "list_fallback scalar_str [PStr ''a'', PNone] = Inr (OList [OStr ''a'', ONone])"
    by (simp add: list_fallback_def render_item_def scalar_str_def)
  have t: "take 100 (map int [0..<150]) = map int [0..<100]"
    by (simp add: take_map)
  have h60: "sixty_heap 0 = ListObj (replicate 60 (PStr ''a''))" by (simp add: sixty_heap_def)
  have sa: "scalar_str (PStr ''a'') = Inr ''a''" by (simp add: scalar_str_def)
  have str: "\<forall>item \<in> set (take 50 (replicate 60 (PStr ''a''))). item \<noteq> PNone \<longrightarrow>
               \<not> isl (scalar_str item)"
    by (simp add: sa)
  have fails: "\<exists>item \<in> set (take 100 (replicate 60 (PStr ''a''))).
                 isl (fst (clean scalar_str sixty_heap 0 item {}))"
    by simp
  have rend: "map (render_item scalar_str) (take 50 (replicate 60 (PStr ''a''))) =
              map Inr (replicate 50 (OStr ''a''))"
    by (simp add: render_item_def sa)
  note inst = sequences_bounded[where S = scalar_str and H = range_heap and n = "Suc (Suc 0)"
      and obj = "PRef 0" and seen = "{}" and out = "OList (map OInt (map int [0..<100]))"
      and a = 0 and xs = "map int [0..<150]" and m = 0 and seen' = "{}"
      and items = "[PStr ''a'', PNone]" and out' = "OList [OStr ''a'', ONone]"]
  note inst60 = sequences_bounded[where S = scalar_str and H = sixty_heap
      and items' = "replicate 60 (PStr ''a'')" and b = 0 and k = 0 and seen'' = "{}"]
  from inst h have c: "clean scalar_str range_heap (Suc (Suc 0)) (PRef 0) {} =
      (Inr (OList (map OInt (map int [0..<100]))), {})" by (simp only: t)
  with inst have sb: "seqs_bounded (OList (map OInt (map int [0..<100])))" by simp
  from inst60 str obtain rs where
    "list_fallback scalar_str (replicate 60 (PStr ''a'')) = Inr (OList rs)"
    "map Inr rs = map (render_item scalar_str) (take 50 (replicate 60 (PStr ''a'')))"
    by blast
  then have "list_fallback scalar_str (replicate 60 (PStr ''a'')) = Inr (OList rs)"
    and "map Inr rs = (map Inr (replicate 50 (OStr ''a'')) :: (exn + outval) list)"
    by (simp_all only: rend)
  then have f60: "list_fallback scalar_str (replicate 60 (PStr ''a'')) =
                  Inr (OList (replicate 50 (OStr ''a'')))"
    by (simp only: inj_map_eq_map[OF inj_Inr])
  from inst60 str h60 fails obtain rs' where
    "clean scalar_str sixty_heap (Suc 0) (PRef 0) {} = (Inr (OList rs'), {})"
    "map Inr rs' = map (render_item scalar_str) (take 50 (replicate 60 (PStr ''a'')))"
    by blast
  then have "clean scalar_str sixty_heap (Suc 0) (PRef 0) {} = (Inr (OList rs'), {})"
    and "map Inr rs' = (map Inr (replicate 50 (OStr ''a'')) :: (exn + outval) list)"
    by (simp_all only: rend)
  then have c60: "clean scalar_str sixty_heap (Suc 0) (PRef 0) {} =
                  (Inr (OList (replicate 50 (OStr ''a''))), {})"
    by (simp only: inj_map_eq_map[OF inj_Inr])
  from h c sb e h60 sa f60 c60 show ?thesis by (simp add: numeral_2_eq_2)
qed




text \<open>
  C9. Sanitizing the result of the sanitizer gives the same result. Whatever is sanitized,
  and with whatever recursion limit \<open>n\<close>, the result \<open>out\<close> is sanitized to itself from any
  in-memory copy of it, as soon as the recursion limit of this second call allows the nested
  calls that walking \<open>out\<close> takes; \<open>n + 1\<close> always does. In particular this holds for the
  inputs of the claim, those without cycles, oversized collections or unsafe keys.
\<close>

theorem sanitize_idempotent:
  "sanitize S H n x = Inr out \<Longrightarrow> repr H' x' out \<Longrightarrow>
   depth out \<le> Suc n \<and> (depth out \<le> m \<longrightarrow> sanitize S' H' m x' = Inr out)"
proof
  assume r: "sanitize S H n x = Inr out" and rp: "repr H' x' out"
  from r show "depth out \<le> Suc n" unfolding sanitize_def by (rule clean_depth)
  from r have sh: "shaped out" unfolding sanitize_def by (rule clean_shaped)
  show "depth out \<le> m \<longrightarrow> sanitize S' H' m x' = Inr out"
  proof
    assume d: "depth out \<le> m"
    from clean_repr[OF rp sh d, of "{}" S'] show "sanitize S' H' m x' = Inr out"
      by (simp add: sanitize_def)
  qed
qed

theorem sanitize_idempotent_witness:
  "sanitize scalar_str shared_heap 3 (PRef 0) =
     Inr (ODict [(PStr ''a'', ODict [(PStr ''x'', OInt 1)]),
                 (PStr ''b'', ODict [(PStr ''x'', OInt 1)])]) \<and>
   repr tree_heap (PRef 0)
     (ODict [(PStr ''a'', ODict [(PStr ''x'', OInt 1)]),
             (PStr ''b'', ODict [(PStr ''x'', OInt 1)])]) \<and>
   depth (ODict [(PStr ''a'', ODict [(PStr ''x'', OInt 1)]),
                 (PStr ''b'', ODict [(PStr ''x'', OInt 1)])]) \<le> 3 \<and>
   sanitize scalar_str tree_heap 3 (PRef 0) =
     Inr (ODict [(PStr ''a'', ODict [(PStr ''x'', OInt 1)]),
                 (PStr ''b'', ODict [(PStr ''x'', OInt 1)])])"
proof -
  let ?out = "ODict [(PStr ''a'', ODict [(PStr ''x'', OInt 1)]),
                     (PStr ''b'', ODict [(PStr ''x'', OInt 1)])]"
  have s: "sanitize scalar_str shared_heap 3 (PRef 0) = Inr ?out"
    by (simp add: sanitize_def shared_heap_def unsafe_keys_def numeral_3_eq_3)
  have rp: "repr tree_heap (PRef 0) ?out"
    by (simp add: tree_heap_def)
  have d: "depth ?out \<le> 3" by simp
  from sanitize_idempotent[OF s rp, of 3 scalar_str] s rp d show ?thesis by blast
qed

text \<open>
  C10. When the sanitizer returns, the caller's set \<open>seen\<close> holds what it held before the
  call: the dict branch removes the address it added, and the children work on copies.
\<close>

theorem seen_restored:
  "fst (clean S H n obj seen) = Inr out \<Longrightarrow> snd (clean S H n obj seen) = seen"
  by (cases n; cases obj) (auto split: pyobj.splits sum.splits if_splits simp: Let_def)

theorem seen_restored_witness:
  "fst (clean scalar_str shared_heap 3 (PRef 0) {7}) =
     Inr (ODict [(PStr ''a'', ODict [(PStr ''x'', OInt 1)]), (PStr ''b'', ODict [(PStr ''x'', OInt 1)])]) \<and>
   snd (clean scalar_str shared_heap 3 (PRef 0) {7}) = {7}"
proof -
  have c: "fst (clean scalar_str shared_heap (Suc (Suc (Suc 0))) (PRef 0) {7}) =
     Inr (ODict [(PStr ''a'', ODict [(PStr ''x'', OInt 1)]), (PStr ''b'', ODict [(PStr ''x'', OInt 1)])])"
    by (simp add: shared_heap_def unsafe_keys_def)
  from seen_restored[OF c] c show ?thesis by (simp add: numeral_3_eq_3)
qed

end
